theory Spec2Isabelle
  imports Main
begin

section \<open>removeAnnotations.py: the regular expressions\<close>

text \<open>
  The script reads a file with \<^verbatim>\<open>encoding='us-ascii'\<close>, so every character
  of \<^verbatim>\<open>content\<close> is below 128 and Python's \<^verbatim>\<open>\w\<close> is the class
  \<^verbatim>\<open>[a-zA-Z0-9_]\<close>.
\<close>

definition is_word :: "char \<Rightarrow> bool" where
  "is_word c =
     (let n = (of_char c :: nat)
      in (97 \<le> n \<and> n \<le> 122) \<or> (65 \<le> n \<and> n \<le> 90) \<or> (48 \<le> n \<and> n \<le> 57) \<or> n = 95)"

text \<open>
  The seven patterns use three kinds of regex items only: a literal character (also the
  escaped \<^verbatim>\<open>\(\<close> and \<^verbatim>\<open>\)\<close>), the assertion \<^verbatim>\<open>\b\<close>, and the greedy
  starred negated class \<^verbatim>\<open>[^\)]*\<close>.
\<close>

datatype re_item = Lit char | WordB | StarNot char

text \<open>
  \<^verbatim>\<open>\b\<close> holds where exactly one of the character before and the character after
  the position is a word character; the start and the end of the string count as non-word.
  \<open>prev\<close> is the character before the position in the scanned string, \<open>None\<close> at its start.
\<close>

fun word_opt :: "char option \<Rightarrow> bool" where
  "word_opt None = False"
| "word_opt (Some c) = is_word c"

fun next_char :: "string \<Rightarrow> char option" where
  "next_char [] = None"
| "next_char (x # xs) = Some x"

definition at_boundary :: "char option \<Rightarrow> string \<Rightarrow> bool" where
  "at_boundary prev s = (word_opt prev \<noteq> word_opt (next_char s))"

text \<open>
  \<open>match_at p prev s\<close> is the backtracking matcher anchored at the head of \<open>s\<close>: the
  number of characters the first successful match consumes, \<open>None\<close> when there is none.
  The star is greedy: it takes one more character when it can, and gives it back only
  when the rest of the pattern fails.
\<close>

fun match_at :: "re_item list \<Rightarrow> char option \<Rightarrow> string \<Rightarrow> nat option" where
  "match_at [] prev s = Some 0"
| "match_at (Lit c # ps) prev [] = None"
| "match_at (Lit c # ps) prev (x # xs) =
     (if x = c then map_option Suc (match_at ps (Some x) xs) else None)"
| "match_at (WordB # ps) prev s =
     (if at_boundary prev s then match_at ps prev s else None)"
| "match_at (StarNot c # ps) prev [] = match_at ps prev []"
| "match_at (StarNot c # ps) prev (x # xs) =
     (if x \<noteq> c
      then (case match_at (StarNot c # ps) (Some x) xs of
              Some n \<Rightarrow> Some (Suc n)
            | None \<Rightarrow> match_at ps prev (x # xs))
      else match_at ps prev (x # xs))"

text \<open>
  \<^verbatim>\<open>re.sub(pattern, '', string)\<close>: scan from the left; where the pattern matches a
  non-empty span, drop the span and go on behind it; elsewhere copy one character. The
  assertion \<^verbatim>\<open>\b\<close> looks at the scanned string, so \<open>prev\<close> is the last character
  passed over, removed or not. An empty match is replaced by the empty string, which
  copies the character as well.
\<close>

fun sub_scan :: "re_item list \<Rightarrow> char option \<Rightarrow> string \<Rightarrow> string" where
  "sub_scan p prev [] = []"
| "sub_scan p prev (x # xs) =
     (case match_at p prev (x # xs) of
        Some (Suc n) \<Rightarrow> sub_scan p (Some ((x # xs) ! n)) (drop n xs)
      | _ \<Rightarrow> x # sub_scan p (Some x) xs)"

definition re_sub :: "re_item list \<Rightarrow> string \<Rightarrow> string" where
  "re_sub p s = sub_scan p None s"

text \<open>
  The number of non-overlapping matches the same scan finds
  (\<^verbatim>\<open>len(re.findall(pattern, string))\<close>): the occurrences of a pattern in a text.
\<close>

fun count_scan :: "re_item list \<Rightarrow> char option \<Rightarrow> string \<Rightarrow> nat" where
  "count_scan p prev [] = 0"
| "count_scan p prev (x # xs) =
     (case match_at p prev (x # xs) of
        Some (Suc n) \<Rightarrow> Suc (count_scan p (Some ((x # xs) ! n)) (drop n xs))
      | _ \<Rightarrow> count_scan p (Some x) xs)"

definition occurrences :: "re_item list \<Rightarrow> string \<Rightarrow> nat" where
  "occurrences p s = count_scan p None s"

text \<open>The regex patterns of \<^verbatim>\<open>remove_annotations\<close>, item by item.\<close>

definition nullable_pattern :: "re_item list" where
  "nullable_pattern = Lit CHR ''@'' # WordB # map Lit ''Nullable'' @ [WordB]"

definition nonnull_pattern :: "re_item list" where
  "nonnull_pattern = Lit CHR ''@'' # WordB # map Lit ''NonNull'' @ [WordB]"

definition nonnull_strict_pattern :: "re_item list" where
  "nonnull_strict_pattern = Lit CHR ''@'' # WordB # map Lit ''Nonnull'' @ [WordB]"

definition notnull_pattern :: "re_item list" where
  "notnull_pattern = Lit CHR ''@'' # WordB # map Lit ''Notnull'' @ [WordB]"

definition not_null_strict_pattern :: "re_item list" where
  "not_null_strict_pattern = Lit CHR ''@'' # WordB # map Lit ''NotNull'' @ [WordB]"

definition monotonic_nonnull_pattern :: "re_item list" where
  "monotonic_nonnull_pattern = Lit CHR ''@'' # WordB # map Lit ''MonotonicNonNull'' @ [WordB]"

definition suppress_warnings_pattern :: "re_item list" where
  "suppress_warnings_pattern =
     Lit CHR ''@'' # WordB # map Lit ''SuppressWarnings''
       @ [WordB, Lit CHR ''('', StarNot CHR '')'', Lit CHR '')'']"

text \<open>
  The seven substitutions of \<^verbatim>\<open>remove_annotations\<close>, each on the result of the one
  before, the last one under \<^verbatim>\<open>if remove_suppress_warnings\<close>.
\<close>

definition new_content :: "bool \<Rightarrow> string \<Rightarrow> string" where
  "new_content remove_suppress_warnings content =
     (let c1 = re_sub nullable_pattern content;
          c2 = re_sub nonnull_pattern c1;
          c3 = re_sub nonnull_strict_pattern c2;
          c4 = re_sub notnull_pattern c3;
          c5 = re_sub not_null_strict_pattern c4;
          c6 = re_sub monotonic_nonnull_pattern c5
      in if remove_suppress_warnings then re_sub suppress_warnings_pattern c6 else c6)"


section \<open>removeAnnotations.py: files, the walk and the run\<close>

text \<open>
  The host is taken to be POSIX: \<^verbatim>\<open>os.sep\<close> is \<^verbatim>\<open>/\<close> and \<^verbatim>\<open>os.linesep\<close> is
  \<^verbatim>\<open>\n\<close>. A stored file is a list of bytes (\<open>char\<close> is a byte) with the two
  permissions \<^verbatim>\<open>open\<close> asks for. \<^verbatim>\<open>open\<close> follows links, so a path is not a file:
  \<open>names\<close> gives the file a path names, and two paths that are links to one file
  have one name; \<open>disk\<close> holds the files that exist. \<open>writes\<close> logs every path opened
  with mode \<^verbatim>\<open>'w'\<close>, in order. The seven module-level counters are part of the state,
  as the \<^verbatim>\<open>global\<close> statement of \<^verbatim>\<open>remove_annotations\<close> has them.
\<close>

datatype out_line = Processed string | TotalHeader | TotalCount string int

record stored_file =
  contents :: string
  readable :: bool
  writable :: bool

record state =
  names :: "string \<Rightarrow> nat"
  disk :: "nat \<Rightarrow> stored_file option"
  writes :: "string list"
  stdout :: "out_line list"
  total_nullable_count :: int
  total_nonnull_count :: int
  total_nonnull_strict_count :: int
  total_notnull_count :: int
  total_not_null_strict_count :: int
  total_monotonic_nonnull_count :: int
  total_suppress_warnings_count :: int

text \<open>Lines 6 to 12 of the script: every counter starts at zero.\<close>

definition init_state :: "(string \<Rightarrow> nat) \<Rightarrow> (nat \<Rightarrow> stored_file option) \<Rightarrow> state" where
  "init_state ns fls =
     \<lparr>names = ns, disk = fls, writes = [], stdout = [],
      total_nullable_count = 0, total_nonnull_count = 0, total_nonnull_strict_count = 0,
      total_notnull_count = 0, total_not_null_strict_count = 0,
      total_monotonic_nonnull_count = 0, total_suppress_warnings_count = 0\<rparr>"

text \<open>The bytes stored under a path, when it names a file that exists.\<close>

definition fs :: "state \<Rightarrow> string \<Rightarrow> string option" where
  "fs s file_path = map_option contents (disk s (names s file_path))"

text \<open>
  The exceptions of the two \<^verbatim>\<open>open\<close> calls and of \<^verbatim>\<open>file.read()\<close>:
  \<^verbatim>\<open>FileNotFoundError\<close> on a path that names no file, \<^verbatim>\<open>PermissionError\<close> on a file
  that may not be opened in the mode asked for, \<^verbatim>\<open>UnicodeDecodeError\<close> on a byte above
  127 (the DecodingError of the specification). A failed run carries the state it
  stopped in.
\<close>

datatype error = UnicodeDecodeError | FileNotFoundError | PermissionError

type_synonym result = "(error \<times> state) + state"

definition decode_ascii :: "string \<Rightarrow> string option" where
  "decode_ascii bytes =
     (if list_all (\<lambda>b. (of_char b :: nat) < 128) bytes then Some bytes else None)"

text \<open>
  Text mode with the default \<^verbatim>\<open>newline=None\<close>: on reading, \<^verbatim>\<open>\r\n\<close> and a lone
  \<^verbatim>\<open>\r\<close> become \<^verbatim>\<open>\n\<close>; on writing, \<^verbatim>\<open>\n\<close> becomes \<^verbatim>\<open>os.linesep\<close>.
\<close>

fun universal_newlines :: "string \<Rightarrow> string" where
  "universal_newlines [] = []"
| "universal_newlines (x # xs) =
     (if x = CHR 0x0D
      then (case xs of
              [] \<Rightarrow> [CHR 0x0A]
            | y # ys \<Rightarrow> if y = CHR 0x0A then CHR 0x0A # universal_newlines ys
                         else CHR 0x0A # universal_newlines (y # ys))
      else x # universal_newlines xs)"

definition os_linesep :: string where
  "os_linesep = [CHR 0x0A]"

definition write_newlines :: "string \<Rightarrow> string" where
  "write_newlines s = concat (map (\<lambda>c. if c = CHR 0x0A then os_linesep else [c]) s)"

text \<open>
  Lines 18 and 19, \<^verbatim>\<open>with open(file_path, 'r', encoding='us-ascii') as file:
  content = file.read()\<close>.
\<close>

definition read_text :: "string \<Rightarrow> state \<Rightarrow> (error \<times> state) + string" where
  "read_text file_path s =
     (case disk s (names s file_path) of
        None \<Rightarrow> Inl (FileNotFoundError, s)
      | Some f \<Rightarrow>
          if \<not> readable f then Inl (PermissionError, s)
          else (case decode_ascii (contents f) of
                  None \<Rightarrow> Inl (UnicodeDecodeError, s)
                | Some text \<Rightarrow> Inr (universal_newlines text)))"

text \<open>
  Lines 43 and 44, \<^verbatim>\<open>with open(file_path, 'w', encoding='us-ascii') as file:
  file.write(new_content)\<close>. Mode \<^verbatim>\<open>'w'\<close> truncates the file the path names, and
  creates it when there is none (the directory is taken to allow that); a file that may
  not be written is left as it is. The text is ASCII, so encoding it cannot fail.
\<close>

definition write_text :: "string \<Rightarrow> string \<Rightarrow> state \<Rightarrow> result" where
  "write_text file_path text s =
     (case disk s (names s file_path) of
        None \<Rightarrow>
          Inr (s\<lparr>disk := (disk s)(names s file_path \<mapsto>
                    \<lparr>contents = write_newlines text, readable = True, writable = True\<rparr>),
                 writes := writes s @ [file_path]\<rparr>)
      | Some f \<Rightarrow>
          if \<not> writable f then Inl (PermissionError, s)
          else Inr (s\<lparr>disk := (disk s)(names s file_path \<mapsto>
                         f\<lparr>contents := write_newlines text\<rparr>),
                      writes := writes s @ [file_path]\<rparr>))"

text \<open>
  \<^verbatim>\<open>remove_annotations(file_path, remove_suppress_warnings)\<close>: read, substitute, write
  back. No statement of it assigns to a counter.
\<close>

definition remove_annotations :: "string \<Rightarrow> bool \<Rightarrow> state \<Rightarrow> result" where
  "remove_annotations file_path remove_suppress_warnings s =
     (case read_text file_path s of
        Inl e \<Rightarrow> Inl e
      | Inr content \<Rightarrow>
          write_text file_path (new_content remove_suppress_warnings content) s)"

text \<open>\<^verbatim>\<open>str.endswith\<close> and \<^verbatim>\<open>os.path.join\<close> (posixpath) on two components.\<close>

definition endswith :: "string \<Rightarrow> string \<Rightarrow> bool" where
  "endswith s suf = (length suf \<le> length s \<and> drop (length s - length suf) s = suf)"

definition join_path :: "string \<Rightarrow> string \<Rightarrow> string" where
  "join_path a b =
     (if take 1 b = ''/'' then b
      else if a = [] \<or> endswith a ''/'' then a @ b
      else a @ ''/'' @ b)"

text \<open>
  The directory structure below the root: the subdirectories by name, and the names of
  the plain files. \<^verbatim>\<open>os.walk\<close> yields \<^verbatim>\<open>(root, dirs, files)\<close> for a directory and then
  walks its subdirectories in order.
\<close>

datatype dirtree = Dir "(string \<times> dirtree) list" "string list"

fun walk :: "string \<Rightarrow> dirtree \<Rightarrow> (string \<times> string list \<times> string list) list"
  and walk_dirs :: "string \<Rightarrow> (string \<times> dirtree) list \<Rightarrow> (string \<times> string list \<times> string list) list"
  where
  "walk dirpath (Dir subdirs files) = (dirpath, map fst subdirs, files) # walk_dirs dirpath subdirs"
| "walk_dirs dirpath [] = []"
| "walk_dirs dirpath ((name, t) # rest) = walk (join_path dirpath name) t @ walk_dirs dirpath rest"

definition print_line :: "out_line \<Rightarrow> state \<Rightarrow> state" where
  "print_line l s = s\<lparr>stdout := stdout s @ [l]\<rparr>"

text \<open>The inner loop \<^verbatim>\<open>for file in files\<close>; an exception ends the run.\<close>

fun process_files :: "string \<Rightarrow> string list \<Rightarrow> bool \<Rightarrow> state \<Rightarrow> result" where
  "process_files root [] remove_suppress_warnings s = Inr s"
| "process_files root (file # files) remove_suppress_warnings s =
     (if endswith file ''.java''
      then (case remove_annotations (join_path root file) remove_suppress_warnings s of
              Inl e \<Rightarrow> Inl e
            | Inr s' \<Rightarrow>
                process_files root files remove_suppress_warnings
                  (print_line (Processed (join_path root file)) s'))
      else process_files root files remove_suppress_warnings s)"

text \<open>The outer loop \<^verbatim>\<open>for root, _, files in os.walk(directory)\<close>.\<close>

fun process_walk :: "(string \<times> string list \<times> string list) list \<Rightarrow> bool \<Rightarrow> state \<Rightarrow> result" where
  "process_walk [] remove_suppress_warnings s = Inr s"
| "process_walk ((root, dirs, files) # rest) remove_suppress_warnings s =
     (case process_files root files remove_suppress_warnings s of
        Inl e \<Rightarrow> Inl e
      | Inr s' \<Rightarrow> process_walk rest remove_suppress_warnings s')"

definition process_directory :: "dirtree \<Rightarrow> string \<Rightarrow> bool \<Rightarrow> state \<Rightarrow> result" where
  "process_directory tree directory remove_suppress_warnings s =
     process_walk (walk directory tree) remove_suppress_warnings s"

text \<open>The summary printed after the traversal, and the script's main block.\<close>

definition print_totals :: "bool \<Rightarrow> state \<Rightarrow> state" where
  "print_totals remove_suppress_warnings s =
     s\<lparr>stdout := stdout s @
         [TotalHeader,
          TotalCount ''@Nullable'' (total_nullable_count s),
          TotalCount ''@NonNull'' (total_nonnull_count s),
          TotalCount ''@Nonnull'' (total_nonnull_strict_count s),
          TotalCount ''@Notnull'' (total_notnull_count s),
          TotalCount ''@NotNull'' (total_not_null_strict_count s),
          TotalCount ''@MonotonicNonNull'' (total_monotonic_nonnull_count s)]
         @ (if remove_suppress_warnings
            then [TotalCount ''@SuppressWarnings'' (total_suppress_warnings_count s)]
            else [])\<rparr>"

definition main :: "dirtree \<Rightarrow> string \<Rightarrow> bool \<Rightarrow> state \<Rightarrow> result" where
  "main tree src_directory remove_suppress_warnings s =
     (case process_directory tree src_directory remove_suppress_warnings s of
        Inl e \<Rightarrow> Inl e
      | Inr s' \<Rightarrow> Inr (print_totals remove_suppress_warnings s'))"

text \<open>The paths the two loops hand to \<^verbatim>\<open>remove_annotations\<close>, in order.\<close>

fun selected_files :: "string \<Rightarrow> string list \<Rightarrow> string list" where
  "selected_files root [] = []"
| "selected_files root (file # files) =
     (if endswith file ''.java'' then join_path root file # selected_files root files
      else selected_files root files)"

fun selected_walk :: "(string \<times> string list \<times> string list) list \<Rightarrow> string list" where
  "selected_walk [] = []"
| "selected_walk ((root, dirs, files) # rest) = selected_files root files @ selected_walk rest"

definition selected_paths :: "dirtree \<Rightarrow> string \<Rightarrow> string list" where
  "selected_paths tree directory = selected_walk (walk directory tree)"

text \<open>The seven counters of a state, in declaration order.\<close>

definition counters :: "state \<Rightarrow> int list" where
  "counters s =
     [total_nullable_count s, total_nonnull_count s, total_nonnull_strict_count s,
      total_notnull_count s, total_not_null_strict_count s,
      total_monotonic_nonnull_count s, total_suppress_warnings_count s]"

text \<open>
  The state a run ends in, failed or not; and the two loops of \<^verbatim>\<open>process_directory\<close>
  flattened into one loop over a list of paths: \<^verbatim>\<open>remove_annotations\<close> on each, then
  the progress line.
\<close>

fun final_state :: "result \<Rightarrow> state" where
  "final_state (Inl (e, s)) = s"
| "final_state (Inr s) = s"

fun strip_and_report :: "string list \<Rightarrow> bool \<Rightarrow> state \<Rightarrow> result" where
  "strip_and_report [] remove_suppress_warnings s = Inr s"
| "strip_and_report (p # ps) remove_suppress_warnings s =
     (case remove_annotations p remove_suppress_warnings s of
        Inl e \<Rightarrow> Inl e
      | Inr s' \<Rightarrow> strip_and_report ps remove_suppress_warnings (print_line (Processed p) s'))"

text \<open>
  The file \<^verbatim>\<open>remove_annotations\<close> leaves behind; an ordinary file, which may be read
  and written; a path that \<^verbatim>\<open>remove_annotations\<close> can open in both modes; and the
  names given to the paths of an association list (0 to every other path).
\<close>

definition rewritten :: "bool \<Rightarrow> stored_file \<Rightarrow> stored_file" where
  "rewritten remove_suppress_warnings f =
     f\<lparr>contents :=
         write_newlines (new_content remove_suppress_warnings (universal_newlines (contents f)))\<rparr>"

definition plain_file :: "string \<Rightarrow> stored_file" where
  "plain_file bytes = \<lparr>contents = bytes, readable = True, writable = True\<rparr>"

definition accessible :: "state \<Rightarrow> string \<Rightarrow> bool" where
  "accessible s file_path =
     (case disk s (names s file_path) of
        None \<Rightarrow> False
      | Some f \<Rightarrow> readable f \<and> writable f)"

definition names_of :: "(string \<times> nat) list \<Rightarrow> string \<Rightarrow> nat" where
  "names_of al file_path = (case map_of al file_path of None \<Rightarrow> 0 | Some i \<Rightarrow> i)"

section \<open>Annotation patterns in general\<close>

text \<open>
  Six of the patterns have the shape \<^verbatim>\<open>@\bNAME\b\<close>. \<open>starts_ann w s\<close> says in plain
  list terms that such a pattern matches at the head of \<open>s\<close>, \<open>has_ann w s\<close> that it
  matches somewhere in \<open>s\<close>.
\<close>

definition ann :: "string \<Rightarrow> re_item list" where
  "ann w = Lit CHR ''@'' # WordB # map Lit w @ [WordB]"

definition bstart :: "string \<Rightarrow> bool" where
  "bstart r = (\<not> word_opt (next_char r))"

definition starts_ann :: "string \<Rightarrow> string \<Rightarrow> bool" where
  "starts_ann w s = (take (Suc (length w)) s = CHR ''@'' # w \<and> bstart (drop (Suc (length w)) s))"

fun has_ann :: "string \<Rightarrow> string \<Rightarrow> bool" where
  "has_ann w [] = False"
| "has_ann w (x # xs) = (starts_ann w (x # xs) \<or> has_ann w xs)"

fun covers :: "string \<Rightarrow> string \<Rightarrow> string \<Rightarrow> bool" where
  "covers q a [] = True"
| "covers q a (x # xs) = ((starts_ann q (x # xs) \<longrightarrow> starts_ann a (x # xs)) \<and> covers q a xs)"

text \<open>
  The tail \<^verbatim>\<open>\b\([^\)]*\)\<close> of the SuppressWarnings pattern, and the span it
  takes from a text: an opening parenthesis and everything up to the first closing one.
\<close>

definition args_tail :: "re_item list" where
  "args_tail = [WordB, Lit CHR ''('', StarNot CHR '')'', Lit CHR '')'']"

definition args_span :: "string \<Rightarrow> nat option" where
  "args_span d =
     (case d of
        [] \<Rightarrow> None
      | y # ys \<Rightarrow>
          if y = CHR ''('' \<and> CHR '')'' \<in> set ys
          then Some (Suc (Suc (length (takeWhile (\<lambda>x. x \<noteq> CHR '')'') ys))))
          else None)"

section \<open>Lemmas on the matcher\<close>

lemma bstart_simps [simp]: "bstart []" "bstart (x # xs) = (\<not> is_word x)"
  by (simp_all add: bstart_def)

lemma match_lits:
  "match_at (map Lit w @ ps) prev s =
     (if take (length w) s = w
      then map_option (\<lambda>n. length w + n)
             (match_at ps (if w = [] then prev else Some (last w)) (drop (length w) s))
      else None)"
proof (induction w arbitrary: prev s)
  case Nil
  show ?case by (cases "match_at ps prev s") simp_all
next
  case (Cons c w)
  show ?case
  proof (cases s)
    case Nil
    then show ?thesis by simp
  next
    case (Cons x xs)
    then show ?thesis
      by (simp add: Cons.IH option.map_comp comp_def)
  qed
qed

lemma match_WordB_end:
  "match_at [WordB] prev s = (if at_boundary prev s then Some 0 else None)"
  by simp

lemma not_word_at [simp]: "\<not> is_word CHR ''@''"
  by (simp add: is_word_def)

lemma match_ann:
  assumes "w \<noteq> []" and "list_all is_word w"
  shows "match_at (ann w) prev s = (if starts_ann w s then Some (Suc (length w)) else None)"
proof (cases s)
  case Nil
  then show ?thesis by (simp add: ann_def starts_ann_def)
next
  case (Cons x xs)
  have lw: "is_word (last w)" and hw: "is_word (hd w)"
    using assms by (simp_all add: list_all_iff)
  have b1: "take (length w) xs = w \<Longrightarrow> at_boundary (Some CHR ''@'') xs"
    using assms hw by (cases xs; cases w) (auto simp: at_boundary_def)
  have b2: "at_boundary (Some (last w)) r = bstart r" for r
    using lw by (simp add: at_boundary_def bstart_def)
  show ?thesis
    using Cons assms(1) b1 b2
    by (auto simp: ann_def starts_ann_def match_lits)
qed

lemma starts_ann_Cons:
  "starts_ann w (x # xs) \<Longrightarrow> x = CHR ''@'' \<and> take (length w) xs = w"
  by (simp add: starts_ann_def)

lemma sub_ann_Cons:
  assumes "w \<noteq> []" and "list_all is_word w"
  shows "sub_scan (ann w) prev (x # xs) =
     (if starts_ann w (x # xs)
      then sub_scan (ann w) (Some ((x # xs) ! length w)) (drop (length w) xs)
      else x # sub_scan (ann w) (Some x) xs)"
  by (simp add: match_ann [OF assms])

lemma count_ann_Cons:
  assumes "w \<noteq> []" and "list_all is_word w"
  shows "count_scan (ann w) prev (x # xs) =
     (if starts_ann w (x # xs)
      then Suc (count_scan (ann w) (Some ((x # xs) ! length w)) (drop (length w) xs))
      else count_scan (ann w) (Some x) xs)"
  by (simp add: match_ann [OF assms])

lemma starts_ann_bstart_rest:
  "starts_ann w (x # xs) \<Longrightarrow> bstart (drop (length w) xs)"
  by (simp add: starts_ann_def)

lemma sub_ann_bstart:
  assumes "a \<noteq> []" and "list_all is_word a"
  shows "bstart r \<Longrightarrow> bstart (sub_scan (ann a) prev r)"
proof (induction r arbitrary: prev rule: length_induct)
  case (1 r)
  show ?case
  proof (cases r)
    case Nil
    then show ?thesis by simp
  next
    case (Cons x xs)
    show ?thesis
    proof (cases "starts_ann a (x # xs)")
      case True
      have "length (drop (length a) xs) < length r" using Cons by simp
      moreover have "bstart (drop (length a) xs)" using True by (rule starts_ann_bstart_rest)
      ultimately have "bstart (sub_scan (ann a) (Some ((x # xs) ! length a)) (drop (length a) xs))"
        using "1.IH" by blast
      then show ?thesis using Cons True by (simp add: sub_ann_Cons [OF assms] del: sub_scan.simps)
    next
      case False
      then show ?thesis using Cons "1.prems" by (simp add: sub_ann_Cons [OF assms] del: sub_scan.simps)
    qed
  qed
qed

lemma sub_ann_word_prefix:
  assumes "a \<noteq> []" and "list_all is_word a"
  shows "list_all is_word w \<Longrightarrow> sub_scan (ann a) prev xs = w @ r \<Longrightarrow> bstart r
         \<Longrightarrow> take (length w) xs = w \<and> bstart (drop (length w) xs)"
proof (induction w arbitrary: prev xs)
  case Nil
  show ?case
  proof (cases xs)
    case Nil
    then show ?thesis by simp
  next
    case (Cons c cs)
    show ?thesis
    proof (cases "starts_ann a (c # cs)")
      case True
      then have "c = CHR ''@''" by (simp add: starts_ann_def)
      then show ?thesis using Cons by simp
    next
      case False
      then show ?thesis using Cons Nil.prems by (auto simp: sub_ann_Cons [OF assms] simp del: sub_scan.simps)
    qed
  qed
next
  case (Cons v vs)
  show ?case
  proof (cases xs)
    case Nil
    then show ?thesis using Cons.prems by simp
  next
    case (Cons c cs)
    show ?thesis
    proof (cases "starts_ann a (c # cs)")
      case True
      then have "bstart (drop (length a) cs)" by (rule starts_ann_bstart_rest)
      then have "bstart (sub_scan (ann a) (Some ((c # cs) ! length a)) (drop (length a) cs))"
        by (rule sub_ann_bstart [OF assms])
      then have "bstart (v # vs @ r)"
        using True Cons Cons.prems(2) by (simp add: sub_ann_Cons [OF assms] del: sub_scan.simps)
      then show ?thesis using Cons.prems(1) by simp
    next
      case False
      then have "c = v \<and> sub_scan (ann a) (Some c) cs = vs @ r"
        using Cons Cons.prems(2) by (auto simp: sub_ann_Cons [OF assms] simp del: sub_scan.simps)
      then have eq: "c = v" "sub_scan (ann a) (Some c) cs = vs @ r"
        by blast+
      have "take (length vs) cs = vs \<and> bstart (drop (length vs) cs)"
        using Cons.IH [OF _ eq(2) Cons.prems(3)] Cons.prems(1) by simp
      then show ?thesis using Cons eq(1) by simp
    qed
  qed
qed

lemma starts_annI:
  "x = CHR ''@'' \<Longrightarrow> take (length w) xs = w \<Longrightarrow> bstart (drop (length w) xs) \<Longrightarrow> starts_ann w (x # xs)"
  by (simp add: starts_ann_def)

lemma starts_annD:
  "starts_ann w s \<Longrightarrow> \<exists>r. s = CHR ''@'' # w @ r \<and> bstart r"
proof -
  assume st: "starts_ann w s"
  have "s = take (Suc (length w)) s @ drop (Suc (length w)) s" by simp
  also have "take (Suc (length w)) s = CHR ''@'' # w" using st by (simp add: starts_ann_def)
  finally have "s = CHR ''@'' # w @ drop (Suc (length w)) s" by simp
  moreover have "bstart (drop (Suc (length w)) s)" using st by (simp add: starts_ann_def)
  ultimately show ?thesis by blast
qed

lemma covers_drop: "covers q a s \<Longrightarrow> covers q a (drop n s)"
proof (induction s arbitrary: n)
  case Nil
  then show ?case by simp
next
  case (Cons x xs)
  then show ?case by (cases n) simp_all
qed

lemma sub_ann_no_new:
  assumes "a \<noteq> []" and "list_all is_word a" and "list_all is_word q"
  shows "covers q a s \<Longrightarrow> \<not> has_ann q (sub_scan (ann a) prev s)"
proof (induction s arbitrary: prev rule: length_induct)
  case (1 s)
  show ?case
  proof (cases s)
    case Nil
    then show ?thesis by simp
  next
    case (Cons x xs)
    show ?thesis
    proof (cases "starts_ann a (x # xs)")
      case True
      have "length (drop (length a) xs) < length s" using Cons by simp
      moreover have "covers q a (drop (length a) xs)"
        using "1.prems" Cons covers_drop by simp
      ultimately have "\<not> has_ann q (sub_scan (ann a) (Some ((x # xs) ! length a)) (drop (length a) xs))"
        using "1.IH" by blast
      then show ?thesis using Cons True by (simp add: sub_ann_Cons [OF assms(1,2)] del: sub_scan.simps)
    next
      case False
      have tl: "\<not> has_ann q (sub_scan (ann a) (Some x) xs)"
        using "1.IH" "1.prems" Cons by simp
      have "\<not> starts_ann q (x # sub_scan (ann a) (Some x) xs)"
      proof
        assume st: "starts_ann q (x # sub_scan (ann a) (Some x) xs)"
        then obtain r where r: "x = CHR ''@''" "sub_scan (ann a) (Some x) xs = q @ r" "bstart r"
          using starts_annD by fastforce
        have "take (length q) xs = q \<and> bstart (drop (length q) xs)"
          using sub_ann_word_prefix [OF assms(1,2) assms(3) r(2) r(3)] .
        then have "starts_ann q (x # xs)" using r(1) by (simp add: starts_annI)
        then have "starts_ann a (x # xs)" using "1.prems" Cons by simp
        then show False using False by simp
      qed
      then show ?thesis using Cons False tl by (simp add: sub_ann_Cons [OF assms(1,2)] del: sub_scan.simps)
    qed
  qed
qed


lemma covers_refl: "covers a a s"
  by (induction s) simp_all

lemma covers_no_has: "\<not> has_ann q s \<Longrightarrow> covers q a s"
  by (induction s) simp_all

lemma pass_clears:
  assumes "a \<noteq> []" and "list_all is_word a"
  shows "\<not> has_ann a (re_sub (ann a) s)"
  unfolding re_sub_def by (rule sub_ann_no_new [OF assms assms(2) covers_refl])

lemma pass_keeps:
  assumes "a \<noteq> []" and "list_all is_word a" and "list_all is_word q"
  shows "\<not> has_ann q s \<Longrightarrow> \<not> has_ann q (re_sub (ann a) s)"
  unfolding re_sub_def by (rule sub_ann_no_new [OF assms]) (rule covers_no_has)

lemma no_has_count:
  assumes "w \<noteq> []" and "list_all is_word w"
  shows "\<not> has_ann w s \<Longrightarrow> count_scan (ann w) prev s = 0"
  by (induction s arbitrary: prev) (simp_all add: count_ann_Cons [OF assms] del: count_scan.simps(2))

lemma count_zero_no_has:
  assumes "w \<noteq> []" and "list_all is_word w"
  shows "count_scan (ann w) prev s = 0 \<Longrightarrow> \<not> has_ann w s"
  by (induction s arbitrary: prev)
     (auto simp: count_ann_Cons [OF assms] simp del: count_scan.simps(2) split: if_splits)

lemma count_zero_noop:
  "count_scan p prev s = 0 \<Longrightarrow> sub_scan p prev s = s"
proof (induction s arbitrary: prev)
  case Nil
  show ?case by simp
next
  case (Cons x xs)
  show ?case
  proof (cases "match_at p prev (x # xs)")
    case None
    then show ?thesis using Cons by simp
  next
    case (Some m)
    then show ?thesis using Cons by (cases m) simp_all
  qed
qed

lemma occurrences_zero_noop: "occurrences p s = 0 \<Longrightarrow> re_sub p s = s"
  by (simp add: occurrences_def re_sub_def count_zero_noop)

lemma ann_patterns:
  "nullable_pattern = ann ''Nullable''"
  "nonnull_pattern = ann ''NonNull''"
  "nonnull_strict_pattern = ann ''Nonnull''"
  "notnull_pattern = ann ''Notnull''"
  "not_null_strict_pattern = ann ''NotNull''"
  "monotonic_nonnull_pattern = ann ''MonotonicNonNull''"
  by (simp_all add: ann_def nullable_pattern_def nonnull_pattern_def nonnull_strict_pattern_def
        notnull_pattern_def not_null_strict_pattern_def monotonic_nonnull_pattern_def)

lemma names_word:
  "list_all is_word ''Nullable''"
  "list_all is_word ''NonNull''"
  "list_all is_word ''Nonnull''"
  "list_all is_word ''Notnull''"
  "list_all is_word ''NotNull''"
  "list_all is_word ''MonotonicNonNull''"
  by (simp_all add: is_word_def)

lemma new_content_False:
  "new_content False T =
     re_sub (ann ''MonotonicNonNull'') (re_sub (ann ''NotNull'') (re_sub (ann ''Notnull'')
       (re_sub (ann ''Nonnull'') (re_sub (ann ''NonNull'') (re_sub (ann ''Nullable'') T)))))"
  by (simp add: new_content_def ann_patterns)

lemma new_content_True:
  "new_content True T = re_sub suppress_warnings_pattern (new_content False T)"
  by (simp add: new_content_def)

lemma new_content_False_clean:
  "\<not> has_ann ''Nullable'' (new_content False T)"
  "\<not> has_ann ''NonNull'' (new_content False T)"
  "\<not> has_ann ''Nonnull'' (new_content False T)"
  "\<not> has_ann ''Notnull'' (new_content False T)"
  "\<not> has_ann ''NotNull'' (new_content False T)"
  "\<not> has_ann ''MonotonicNonNull'' (new_content False T)"
  unfolding new_content_False
  by (intro pass_keeps pass_clears names_word; simp)+


lemmas pattern_defs = nullable_pattern_def nonnull_pattern_def nonnull_strict_pattern_def
  notnull_pattern_def not_null_strict_pattern_def monotonic_nonnull_pattern_def
  suppress_warnings_pattern_def


section \<open>Lemmas on the SuppressWarnings pattern\<close>

lemma match_star_close:
  "match_at [StarNot c, Lit c] prev s =
     (if c \<in> set s then Some (Suc (length (takeWhile (\<lambda>x. x \<noteq> c) s))) else None)"
proof (induction s arbitrary: prev)
  case Nil
  show ?case by simp
next
  case (Cons x xs)
  show ?case by (simp add: Cons.IH)
qed


lemma not_word_paren [simp]: "\<not> is_word CHR ''(''"
  by (simp add: is_word_def)

lemma match_args_tail:
  "is_word l \<Longrightarrow> match_at args_tail (Some l) d = args_span d"
  by (cases d) (auto simp: args_tail_def args_span_def at_boundary_def match_star_close)

lemma match_ann_args:
  assumes "w \<noteq> []" and "list_all is_word w"
  shows "match_at (Lit CHR ''@'' # WordB # map Lit w @ args_tail) prev s =
     (if take (Suc (length w)) s = CHR ''@'' # w
      then map_option (\<lambda>n. Suc (length w) + n) (args_span (drop (Suc (length w)) s))
      else None)"
proof (cases s)
  case Nil
  then show ?thesis by simp
next
  case (Cons x xs)
  have lw: "is_word (last w)" and hw: "is_word (hd w)"
    using assms by (simp_all add: list_all_iff)
  have b1: "take (length w) xs = w \<Longrightarrow> at_boundary (Some CHR ''@'') xs"
    using assms hw by (cases xs; cases w) (auto simp: at_boundary_def)
  show ?thesis
    using Cons assms(1) b1 match_args_tail [OF lw]
    by (auto simp: match_lits option.map_comp comp_def)
qed

lemma sw_pattern: "suppress_warnings_pattern =
    Lit CHR ''@'' # WordB # map Lit ''SuppressWarnings'' @ args_tail"
  by (simp add: suppress_warnings_pattern_def args_tail_def)

lemma match_sw:
  "match_at suppress_warnings_pattern prev s =
     (if take 17 s = ''@SuppressWarnings''
      then map_option (\<lambda>n. 17 + n) (args_span (drop 17 s))
      else None)"
proof -
  have w: "''SuppressWarnings'' \<noteq> []" "list_all is_word ''SuppressWarnings''"
    by (simp_all add: is_word_def)
  have len: "Suc (length ''SuppressWarnings'') = 17" by simp
  show ?thesis
    unfolding sw_pattern by (rule match_ann_args [OF w, of prev s, unfolded len])
qed



lemma match_sw_not_at:
  "x \<noteq> CHR ''@'' \<Longrightarrow> match_at suppress_warnings_pattern prev (x # xs) = None"
  by (simp add: suppress_warnings_pattern_def)

lemma sub_sw_step:
  "x \<noteq> CHR ''@'' \<Longrightarrow>
     sub_scan suppress_warnings_pattern prev (x # xs)
       = x # sub_scan suppress_warnings_pattern (Some x) xs"
  by (simp add: match_sw_not_at)

lemma sub_sw_copy:
  "CHR ''@'' \<notin> set w \<Longrightarrow>
     sub_scan suppress_warnings_pattern prev (w @ rest)
       = w @ sub_scan suppress_warnings_pattern (if w = [] then prev else Some (last w)) rest"
proof (induction w arbitrary: prev)
  case Nil
  show ?case by simp
next
  case (Cons x w)
  then have x: "x \<noteq> CHR ''@''" and w: "CHR ''@'' \<notin> set w" by auto
  have "sub_scan suppress_warnings_pattern prev ((x # w) @ rest)
      = x # sub_scan suppress_warnings_pattern (Some x) (w @ rest)"
    using sub_sw_step [OF x] by simp
  also have "sub_scan suppress_warnings_pattern (Some x) (w @ rest)
      = w @ sub_scan suppress_warnings_pattern (if w = [] then Some x else Some (last w)) rest"
    by (rule Cons.IH [OF w])
  finally show ?case by simp
qed

lemma match_sw_bare:
  "next_char rest \<noteq> Some CHR ''('' \<Longrightarrow>
     match_at suppress_warnings_pattern prev (''@SuppressWarnings'' @ rest) = None"
  by (cases rest) (simp_all add: match_sw args_span_def)

lemma match_sw_unclosed:
  "CHR '')'' \<notin> set rest \<Longrightarrow>
     match_at suppress_warnings_pattern prev (''@SuppressWarnings'' @ rest) = None"
  by (cases rest) (simp_all add: match_sw args_span_def)



section \<open>Lemmas on the run\<close>

lemma process_files_flat:
  "process_files root files flag s = strip_and_report (selected_files root files) flag s"
  by (induction files arbitrary: s) (simp_all split: sum.splits)

lemma strip_and_report_append:
  "strip_and_report (a @ b) flag s =
     (case strip_and_report a flag s of Inl e \<Rightarrow> Inl e | Inr s' \<Rightarrow> strip_and_report b flag s')"
  by (induction a arbitrary: s) (simp_all split: sum.splits)

lemma process_walk_flat:
  "process_walk es flag s = strip_and_report (selected_walk es) flag s"
proof (induction es arbitrary: s)
  case Nil
  show ?case by simp
next
  case (Cons e es)
  obtain root dirs files where e: "e = (root, dirs, files)" by (cases e) auto
  show ?case
    unfolding e by (simp add: process_files_flat strip_and_report_append Cons.IH split: sum.splits)
qed

lemma process_directory_flat:
  "process_directory tree dir flag s = strip_and_report (selected_paths tree dir) flag s"
  by (simp add: process_directory_def selected_paths_def process_walk_flat)

lemma remove_annotations_Inr:
  "remove_annotations p flag s = Inr s' \<Longrightarrow>
     \<exists>f. disk s (names s p) = Some f \<and> readable f \<and> writable f
        \<and> list_all (\<lambda>b. (of_char b :: nat) < 128) (contents f)
        \<and> s' = s\<lparr>disk := (disk s)(names s p \<mapsto> rewritten flag f), writes := writes s @ [p]\<rparr>"
  by (auto simp: remove_annotations_def read_text_def write_text_def decode_ascii_def
        rewritten_def split: option.splits if_splits)

lemma remove_annotations_Inl:
  "remove_annotations p flag s = Inl (e, s') \<Longrightarrow> s' = s"
  by (auto simp: remove_annotations_def read_text_def write_text_def decode_ascii_def
        split: option.splits if_splits)


lemma remove_annotations_decode_fail:
  "disk s (names s p) = Some f \<Longrightarrow> readable f
   \<Longrightarrow> \<not> list_all (\<lambda>b. (of_char b :: nat) < 128) (contents f)
   \<Longrightarrow> remove_annotations p flag s = Inl (UnicodeDecodeError, s)"
  by (simp add: remove_annotations_def read_text_def decode_ascii_def)

lemma remove_annotations_read_only:
  "disk s (names s p) = Some f \<Longrightarrow> readable f \<Longrightarrow> \<not> writable f
   \<Longrightarrow> list_all (\<lambda>b. (of_char b :: nat) < 128) (contents f)
   \<Longrightarrow> remove_annotations p flag s = Inl (PermissionError, s)"
  by (simp add: remove_annotations_def read_text_def write_text_def decode_ascii_def)

lemma remove_annotations_accessible:
  "accessible s p \<Longrightarrow> remove_annotations p flag s = Inl (e, s') \<Longrightarrow> e = UnicodeDecodeError"
  by (auto simp: accessible_def remove_annotations_def read_text_def write_text_def
        decode_ascii_def split: option.splits if_splits)

lemma counters_update [simp]:
  "counters (s\<lparr>disk := fl, writes := ws\<rparr>) = counters s"
  by (simp add: counters_def)

lemma counters_print_line [simp]: "counters (print_line l s) = counters s"
  by (simp add: counters_def print_line_def)

lemma print_line_simps [simp]:
  "writes (print_line l s) = writes s"
  "stdout (print_line l s) = stdout s @ [l]"
  "disk (print_line l s) = disk s"
  "names (print_line l s) = names s"
  by (simp_all add: print_line_def)

lemma accessible_print_line [simp]: "accessible (print_line l s) q = accessible s q"
  by (simp add: accessible_def)

lemma rewritten_flags [simp]:
  "readable (rewritten flag f) = readable f" "writable (rewritten flag f) = writable f"
  by (simp_all add: rewritten_def)

lemma accessible_rewrite:
  "disk s i = Some f \<Longrightarrow>
     accessible (s\<lparr>disk := (disk s)(i \<mapsto> rewritten flag f), writes := ws\<rparr>) q = accessible s q"
  by (simp add: accessible_def)

lemma strip_and_report_frame:
  "\<exists>k \<le> length ps.
      writes (final_state (strip_and_report ps flag s)) = writes s @ take k ps
    \<and> stdout (final_state (strip_and_report ps flag s)) = stdout s @ map Processed (take k ps)
    \<and> counters (final_state (strip_and_report ps flag s)) = counters s
    \<and> names (final_state (strip_and_report ps flag s)) = names s
    \<and> (\<forall>i. i \<notin> names s ` set (take k ps) \<longrightarrow>
          disk (final_state (strip_and_report ps flag s)) i = disk s i)
    \<and> (\<not> isl (strip_and_report ps flag s) \<longrightarrow> k = length ps)"
proof (induction ps arbitrary: s)
  case Nil
  show ?case by simp
next
  case (Cons p ps)
  show ?case
  proof (cases "remove_annotations p flag s")
    case (Inl es)
    obtain e s1 where es: "es = (e, s1)" by (cases es) auto
    have "s1 = s" using Inl es remove_annotations_Inl by blast
    then have "final_state (strip_and_report (p # ps) flag s) = s"
      and "isl (strip_and_report (p # ps) flag s)"
      using Inl es by simp_all
    then show ?thesis by (intro exI [of _ 0]) simp
  next
    case (Inr s1)
    from remove_annotations_Inr [OF Inr] obtain f
      where s1: "s1 = s\<lparr>disk := (disk s)(names s p \<mapsto> rewritten flag f), writes := writes s @ [p]\<rparr>"
      by blast
    let ?s2 = "print_line (Processed p) s1"
    let ?r = "strip_and_report ps flag ?s2"
    have r: "strip_and_report (p # ps) flag s = ?r" using Inr by simp
    from Cons.IH [of ?s2] obtain k where k: "k \<le> length ps"
      "writes (final_state ?r) = writes ?s2 @ take k ps"
      "stdout (final_state ?r) = stdout ?s2 @ map Processed (take k ps)"
      "counters (final_state ?r) = counters ?s2"
      "names (final_state ?r) = names ?s2"
      "\<forall>i. i \<notin> names ?s2 ` set (take k ps) \<longrightarrow> disk (final_state ?r) i = disk ?s2 i"
      "\<not> isl ?r \<longrightarrow> k = length ps"
      by blast
    show ?thesis
      unfolding r using k s1
      by (intro exI [of _ "Suc k"]) auto
  qed
qed

lemma strip_and_report_error:
  "\<forall>q \<in> set ps. accessible s q \<Longrightarrow> strip_and_report ps flag s = Inl (e, s')
   \<Longrightarrow> e = UnicodeDecodeError"
proof (induction ps arbitrary: s)
  case Nil
  then show ?case by simp
next
  case (Cons a ps)
  show ?case
  proof (cases "remove_annotations a flag s")
    case (Inl es)
    obtain e1 s1 where es: "es = (e1, s1)" by (cases es) auto
    have "e1 = UnicodeDecodeError"
      using Inl es Cons.prems(1) remove_annotations_accessible [of s a flag e1 s1] by simp
    then show ?thesis using Inl es Cons.prems(2) by simp
  next
    case (Inr s1)
    from remove_annotations_Inr [OF Inr] obtain f where f: "disk s (names s a) = Some f"
      and s1: "s1 = s\<lparr>disk := (disk s)(names s a \<mapsto> rewritten flag f), writes := writes s @ [a]\<rparr>"
      by blast
    let ?s2 = "print_line (Processed a) s1"
    have acc: "\<forall>q \<in> set ps. accessible ?s2 q"
      using Cons.prems(1) accessible_rewrite [OF f] unfolding s1 by simp
    have "strip_and_report ps flag ?s2 = Inl (e, s')" using Cons.prems(2) Inr by simp
    then show ?thesis using Cons.IH [OF acc] by blast
  qed
qed

lemma strip_and_report_decode_fail:
  "p \<in> set ps \<Longrightarrow> disk s (names s p) = Some f \<Longrightarrow> readable f
   \<Longrightarrow> \<not> list_all (\<lambda>b. (of_char b :: nat) < 128) (contents f)
   \<Longrightarrow> \<exists>e s' qs. strip_and_report ps flag s = Inl (e, s')
         \<and> disk s' (names s' p) = Some f \<and> p \<notin> set qs
         \<and> writes s' = writes s @ qs \<and> stdout s' = stdout s @ map Processed qs"
proof (induction ps arbitrary: s)
  case Nil
  then show ?case by simp
next
  case (Cons a ps)
  show ?case
  proof (cases "remove_annotations a flag s")
    case (Inl es)
    obtain e s1 where es: "es = (e, s1)" by (cases es) auto
    have "s1 = s" using Inl es remove_annotations_Inl by blast
    then have "strip_and_report (a # ps) flag s = Inl (e, s)" using Inl es by simp
    then show ?thesis
      using Cons.prems(2) by (intro exI [of _ e] exI [of _ s] exI [of _ "[]"]) simp
  next
    case (Inr s1)
    from remove_annotations_Inr [OF Inr] obtain g where g: "disk s (names s a) = Some g"
      "list_all (\<lambda>b. (of_char b :: nat) < 128) (contents g)"
      and s1: "s1 = s\<lparr>disk := (disk s)(names s a \<mapsto> rewritten flag g), writes := writes s @ [a]\<rparr>"
      by blast
    have ne: "names s a \<noteq> names s p" using g Cons.prems(2,4) by auto
    then have ap: "a \<noteq> p" by auto
    then have pin: "p \<in> set ps" using Cons.prems(1) by simp
    let ?s2 = "print_line (Processed a) s1"
    have r: "strip_and_report (a # ps) flag s = strip_and_report ps flag ?s2"
      using Inr by simp
    have f2: "disk ?s2 (names ?s2 p) = Some f" using s1 ne Cons.prems(2) by simp
    from Cons.IH [OF pin f2 Cons.prems(3,4)] obtain e s' qs
      where q: "strip_and_report ps flag ?s2 = Inl (e, s')"
        "disk s' (names s' p) = Some f" "p \<notin> set qs"
        "writes s' = writes ?s2 @ qs" "stdout s' = stdout ?s2 @ map Processed qs"
      by blast
    show ?thesis
      unfolding r using q s1 ap
      by (intro exI [of _ e] exI [of _ s'] exI [of _ "a # qs"]) simp
  qed
qed

lemma walk_dirs_concat:
  "walk_dirs d subdirs = concat (map (\<lambda>(name, t). walk (join_path d name) t) subdirs)"
  by (induction subdirs) auto

lemma selected_walk_append:
  "selected_walk (a @ b) = selected_walk a @ selected_walk b"
  by (induction a) auto

lemma selected_walk_concat:
  "selected_walk (concat xss) = concat (map selected_walk xss)"
  by (induction xss) (simp_all add: selected_walk_append)

lemma selected_paths_Dir:
  "selected_paths (Dir subdirs fnames) d
     = selected_files d fnames
       @ concat (map (\<lambda>(name, t). selected_paths t (join_path d name)) subdirs)"
  by (simp add: selected_paths_def walk_dirs_concat selected_walk_concat comp_def
        case_prod_unfold)

lemma only_names:
  "main tree dir flag s = Inl (e, s') \<Longrightarrow> names s' = names s"
proof -
  assume m: "main tree dir flag s = Inl (e, s')"
  then have "strip_and_report (selected_paths tree dir) flag s = Inl (e, s')"
    by (simp add: main_def process_directory_flat split: sum.splits)
  then show ?thesis
    using strip_and_report_frame [of "selected_paths tree dir" flag s] by auto
qed

lemma endswith_iff: "endswith s suf \<longleftrightarrow> (\<exists>pre. s = pre @ suf)"
proof
  assume e: "endswith s suf"
  have d: "drop (length s - length suf) s = suf" using e by (simp add: endswith_def)
  have "take (length s - length suf) s @ suf = s" by (metis append_take_drop_id d)
  then show "\<exists>pre. s = pre @ suf" by metis
next
  assume "\<exists>pre. s = pre @ suf"
  then show "endswith s suf" by (auto simp: endswith_def)
qed

lemma endswith_append: "endswith b suf \<Longrightarrow> endswith (a @ b) suf"
  unfolding endswith_iff by (metis append.assoc)

lemma endswith_sep:
  assumes "c \<notin> set suf" and "endswith (a @ c # b) suf"
  shows "endswith b suf"
proof -
  from assms(2) obtain pre where "a @ c # b = pre @ suf" unfolding endswith_iff by blast
  then obtain us where "(a = pre @ us \<and> us @ c # b = suf) \<or> (a @ us = pre \<and> c # b = us @ suf)"
    unfolding append_eq_append_conv2 by blast
  then show ?thesis
  proof (elim disjE conjE)
    assume "us @ c # b = suf"
    then have "c \<in> set suf" by auto
    then show ?thesis using assms(1) by simp
  next
    assume e: "c # b = us @ suf"
    show ?thesis
    proof (cases us)
      case Nil
      then have "c \<in> set suf" using e by (metis append_Nil list.set_intros(1))
      then show ?thesis using assms(1) by simp
    next
      case (Cons u us')
      then have "b = us' @ suf" using e by simp
      then show ?thesis unfolding endswith_iff by blast
    qed
  qed
qed

lemma endswith_join:
  "endswith (join_path root file) ''.java'' = endswith file ''.java''"
proof -
  have sep: "endswith (a @ CHR ''/'' # file) ''.java'' = endswith file ''.java''" for a
  proof
    assume "endswith (a @ CHR ''/'' # file) ''.java''"
    then show "endswith file ''.java''" by (rule endswith_sep [rotated]) simp
  next
    assume "endswith file ''.java''"
    then show "endswith (a @ CHR ''/'' # file) ''.java''"
      using endswith_append [of "file" "''.java''" "a @ ''/''"] by simp
  qed
  show ?thesis
  proof (cases "take 1 file = ''/'' \<or> root = []")
    case True
    then show ?thesis by (auto simp: join_path_def)
  next
    case False
    show ?thesis
    proof (cases "endswith root ''/''")
      case True
      then obtain r where "root = r @ ''/''" unfolding endswith_iff by blast
      then show ?thesis using False True sep [of r] by (simp add: join_path_def)
    next
      case False2: False
      then show ?thesis using False sep [of root] by (simp add: join_path_def)
    qed
  qed
qed

lemma selected_files_map:
  "selected_files root files = map (join_path root) (filter (\<lambda>f. endswith f ''.java'') files)"
  by (induction files) simp_all

lemma selected_files_java: "list_all (\<lambda>p. endswith p ''.java'') (selected_files root files)"
  by (induction files) (simp_all add: endswith_join)

lemma selected_walk_java: "list_all (\<lambda>p. endswith p ''.java'') (selected_walk es)"
proof (induction es)
  case Nil
  show ?case by simp
next
  case (Cons e es)
  obtain root dirs files where e: "e = (root, dirs, files)" by (cases e) auto
  show ?case unfolding e using Cons.IH selected_files_java by simp
qed

lemma selected_paths_java: "list_all (\<lambda>p. endswith p ''.java'') (selected_paths tree dir)"
  by (simp add: selected_paths_def selected_walk_java)


lemmas run_defs = main_def process_directory_def remove_annotations_def read_text_def
  decode_ascii_def write_text_def write_newlines_def os_linesep_def print_line_def
  print_totals_def init_state_def endswith_def join_path_def names_of_def plain_file_def
  fs_def rewritten_def

lemmas text_defs = new_content_def re_sub_def pattern_defs at_boundary_def is_word_def

section \<open>The claims\<close>

subsection \<open>C1: every occurrence removed, and counted\<close>

text \<open>
  With \<^verbatim>\<open>remove_suppress_warnings\<close> set, deleting a \<^verbatim>\<open>@SuppressWarnings(...)\<close> span
  joins the text on its two sides, and the joined text can be an occurrence again: the
  input below holds one occurrence of the pattern and so does the output.
\<close>

theorem removal_leaves_occurrence_counterexample:
  "occurrences suppress_warnings_pattern ''@SuppressWarnings@SuppressWarnings()()'' = 1
   \<and> new_content True ''@SuppressWarnings@SuppressWarnings()()'' = ''@SuppressWarnings()''
   \<and> occurrences suppress_warnings_pattern
        (new_content True ''@SuppressWarnings@SuppressWarnings()()'') = 1"
  by (simp add: new_content_def re_sub_def occurrences_def pattern_defs at_boundary_def is_word_def)


text \<open>
  C1, as amended: when \<^verbatim>\<open>remove_suppress_warnings\<close> is false, the output of the
  transformation holds zero occurrences of each of the six nullability patterns, whatever
  the input text; when it is true, the output is that text with one more substitution
  pass, for the \<^verbatim>\<open>@SuppressWarnings(...)\<close> pattern, applied to it.
\<close>

theorem nullability_patterns_removed:
  "occurrences nullable_pattern (new_content False T) = 0
   \<and> occurrences nonnull_pattern (new_content False T) = 0
   \<and> occurrences nonnull_strict_pattern (new_content False T) = 0
   \<and> occurrences notnull_pattern (new_content False T) = 0
   \<and> occurrences not_null_strict_pattern (new_content False T) = 0
   \<and> occurrences monotonic_nonnull_pattern (new_content False T) = 0
   \<and> new_content True T = re_sub suppress_warnings_pattern (new_content False T)"
  unfolding occurrences_def ann_patterns
  by (intro conjI no_has_count new_content_False_clean names_word new_content_True; simp)


subsection \<open>C6: no-op on annotation-free text, idempotence\<close>

text \<open>
  With \<^verbatim>\<open>remove_suppress_warnings\<close> set a second application can still change the
  text: the first one leaves \<^verbatim>\<open>@Nullable\<close> behind here, the second one removes it.
\<close>

theorem second_pass_changes_text_counterexample:
  "new_content True ''@Null@SuppressWarnings()able'' = ''@Nullable''
   \<and> new_content True (new_content True ''@Null@SuppressWarnings()able'') = ''''"
  by (simp add: new_content_def re_sub_def pattern_defs at_boundary_def is_word_def)


text \<open>
  C6, as amended: a text with zero occurrences of every pattern the run targets (the six
  nullability patterns, and the \<^verbatim>\<open>@SuppressWarnings(...)\<close> pattern when the flag is
  set) is returned unchanged; a second application without the flag changes nothing; and
  \<^verbatim>\<open>remove_annotations\<close> leaves all seven counters as they were.
\<close>

theorem clean_text_unchanged:
  "(occurrences nullable_pattern T = 0 \<and> occurrences nonnull_pattern T = 0
      \<and> occurrences nonnull_strict_pattern T = 0 \<and> occurrences notnull_pattern T = 0
      \<and> occurrences not_null_strict_pattern T = 0
      \<and> occurrences monotonic_nonnull_pattern T = 0
      \<and> (flag \<longrightarrow> occurrences suppress_warnings_pattern T = 0)
    \<longrightarrow> new_content flag T = T)
   \<and> new_content False (new_content False T) = new_content False T
   \<and> (remove_annotations p flag s = Inr s' \<longrightarrow> counters s' = counters s)"
proof (intro conjI impI)
  assume h: "occurrences nullable_pattern T = 0 \<and> occurrences nonnull_pattern T = 0
      \<and> occurrences nonnull_strict_pattern T = 0 \<and> occurrences notnull_pattern T = 0
      \<and> occurrences not_null_strict_pattern T = 0
      \<and> occurrences monotonic_nonnull_pattern T = 0
      \<and> (flag \<longrightarrow> occurrences suppress_warnings_pattern T = 0)"
  then show "new_content flag T = T"
    by (simp add: new_content_def occurrences_zero_noop)
next
  let ?U = "new_content False T"
  have "occurrences nullable_pattern ?U = 0" "occurrences nonnull_pattern ?U = 0"
    "occurrences nonnull_strict_pattern ?U = 0" "occurrences notnull_pattern ?U = 0"
    "occurrences not_null_strict_pattern ?U = 0" "occurrences monotonic_nonnull_pattern ?U = 0"
    unfolding occurrences_def ann_patterns
    by (intro no_has_count new_content_False_clean names_word; simp)+
  then show "new_content False ?U = ?U"
    by (simp add: new_content_def occurrences_zero_noop)
next
  assume "remove_annotations p flag s = Inr s'"
  then show "counters s' = counters s"
    by (auto dest: remove_annotations_Inr)
qed


theorem clean_text_unchanged_witness:
  "(occurrences nullable_pattern ''int x;'' = 0 \<and> occurrences nonnull_pattern ''int x;'' = 0
      \<and> occurrences nonnull_strict_pattern ''int x;'' = 0 \<and> occurrences notnull_pattern ''int x;'' = 0
      \<and> occurrences not_null_strict_pattern ''int x;'' = 0
      \<and> occurrences monotonic_nonnull_pattern ''int x;'' = 0
      \<and> occurrences suppress_warnings_pattern ''int x;'' = 0)
   \<and> new_content True ''int x;'' = ''int x;''
   \<and> remove_annotations ''A.java'' True
        (init_state (names_of [(''A.java'', 1)]) [1 \<mapsto> plain_file ''int x;''])
        = Inr ((init_state (names_of [(''A.java'', 1)]) [1 \<mapsto> plain_file ''int x;''])
                 \<lparr>disk := [1 \<mapsto> plain_file ''int x;''], writes := [''A.java'']\<rparr>)
   \<and> counters ((init_state (names_of [(''A.java'', 1)]) [1 \<mapsto> plain_file ''int x;''])
                 \<lparr>disk := [1 \<mapsto> plain_file ''int x;''], writes := [''A.java'']\<rparr>)
        = counters (init_state (names_of [(''A.java'', 1)]) [1 \<mapsto> plain_file ''int x;''])"
proof -
  let ?s = "init_state (names_of [(''A.java'', 1)]) [1 \<mapsto> plain_file ''int x;'']"
  let ?s' = "?s\<lparr>disk := [1 \<mapsto> plain_file ''int x;''], writes := [''A.java'']\<rparr>"
  note inst = clean_text_unchanged [of "''int x;''" True "''A.java''" ?s ?s']
  have h: "occurrences nullable_pattern ''int x;'' = 0 \<and> occurrences nonnull_pattern ''int x;'' = 0
      \<and> occurrences nonnull_strict_pattern ''int x;'' = 0 \<and> occurrences notnull_pattern ''int x;'' = 0
      \<and> occurrences not_null_strict_pattern ''int x;'' = 0
      \<and> occurrences monotonic_nonnull_pattern ''int x;'' = 0
      \<and> (True \<longrightarrow> occurrences suppress_warnings_pattern ''int x;'' = 0)"
    by (simp add: occurrences_def pattern_defs at_boundary_def is_word_def)
  have c: "new_content True ''int x;'' = ''int x;''"
    using inst h by blast
  have r: "remove_annotations ''A.java'' True ?s = Inr ?s'"
    by (simp add: remove_annotations_def read_text_def write_text_def decode_ascii_def
          write_newlines_def init_state_def names_of_def plain_file_def c)
  have k: "counters ?s' = counters ?s"
    using inst r by blast
  show ?thesis using h c r k by simp
qed

subsection \<open>C4: the span a SuppressWarnings match removes\<close>





subsection \<open>C10: a bare SuppressWarnings annotation\<close>

text \<open>
  A bare \<^verbatim>\<open>@SuppressWarnings\<close>, followed by \<^verbatim>\<open>)\<close> and not by \<^verbatim>\<open>(\<close>, is still
  removed when it stands inside the argument list of another one: the second
  \<^verbatim>\<open>@SuppressWarnings\<close> below starts at offset 18 and the output is empty.
\<close>

theorem bare_inside_arguments_removed_counterexample:
  "drop 18 ''@SuppressWarnings(@SuppressWarnings)'' = ''@SuppressWarnings)''
   \<and> new_content True ''@SuppressWarnings(@SuppressWarnings)'' = ''''"
  by (simp add: new_content_def re_sub_def pattern_defs at_boundary_def is_word_def)


text \<open>
  C10, as amended: the SuppressWarnings pattern never matches at an
  \<^verbatim>\<open>@SuppressWarnings\<close> that is not immediately followed by an opening parenthesis, or
  that has no closing parenthesis behind it; the substitution that reaches such an
  occurrence copies it to the output and goes on behind it.
\<close>

theorem bare_suppress_warnings_not_matched:
  "(next_char rest \<noteq> Some CHR ''('' \<or> CHR '')'' \<notin> set rest \<longrightarrow>
      match_at suppress_warnings_pattern prev (''@SuppressWarnings'' @ rest) = None
      \<and> sub_scan suppress_warnings_pattern prev (''@SuppressWarnings'' @ rest)
          = ''@SuppressWarnings'' @ sub_scan suppress_warnings_pattern (Some CHR ''s'') rest)"
proof (intro impI conjI)
  assume h: "next_char rest \<noteq> Some CHR ''('' \<or> CHR '')'' \<notin> set rest"
  then show m: "match_at suppress_warnings_pattern prev (''@SuppressWarnings'' @ rest) = None"
    using match_sw_bare match_sw_unclosed by blast
  have "sub_scan suppress_warnings_pattern prev (CHR ''@'' # (''SuppressWarnings'' @ rest))
      = CHR ''@'' # sub_scan suppress_warnings_pattern (Some CHR ''@'') (''SuppressWarnings'' @ rest)"
    using m by (simp del: match_at.simps)
  also have "sub_scan suppress_warnings_pattern (Some CHR ''@'') (''SuppressWarnings'' @ rest)
      = ''SuppressWarnings'' @ sub_scan suppress_warnings_pattern (Some CHR ''s'') rest"
    using sub_sw_copy [of "''SuppressWarnings''" "Some CHR ''@''" rest] by simp
  finally show "sub_scan suppress_warnings_pattern prev (''@SuppressWarnings'' @ rest)
          = ''@SuppressWarnings'' @ sub_scan suppress_warnings_pattern (Some CHR ''s'') rest"
    by simp
qed


theorem bare_suppress_warnings_not_matched_witness:
  "next_char '' void f() {}'' \<noteq> Some CHR ''(''
   \<and> match_at suppress_warnings_pattern None ''@SuppressWarnings void f() {}'' = None
   \<and> sub_scan suppress_warnings_pattern None ''@SuppressWarnings void f() {}''
        = ''@SuppressWarnings'' @ sub_scan suppress_warnings_pattern (Some CHR ''s'') '' void f() {}''"
proof -
  note inst = bare_suppress_warnings_not_matched [of "'' void f() {}''" None]
  have h: "next_char '' void f() {}'' \<noteq> Some CHR ''(''" by simp
  have "match_at suppress_warnings_pattern None (''@SuppressWarnings'' @ '' void f() {}'') = None
      \<and> sub_scan suppress_warnings_pattern None (''@SuppressWarnings'' @ '' void f() {}'')
          = ''@SuppressWarnings'' @ sub_scan suppress_warnings_pattern (Some CHR ''s'') '' void f() {}''"
    using inst h by blast
  then show ?thesis using h by (simp del: sub_scan.simps)
qed



subsection \<open>C7: the walk processes the \<^verbatim>\<open>.java\<close> files only\<close>

text \<open>
  A file whose name does not end with \<^verbatim>\<open>.java\<close> is rewritten all the same when a
  selected path is a link to it: \<^verbatim>\<open>src/L.java\<close> and \<^verbatim>\<open>src/notes.txt\<close> name one
  file here.
\<close>

theorem java_link_rewrites_other_file_counterexample:
  "\<not> endswith ''src/notes.txt'' ''.java''
   \<and> fs (init_state (names_of [(''src/L.java'', 1), (''src/notes.txt'', 1)])
             [1 \<mapsto> plain_file ''@Nullable y''])
        ''src/notes.txt'' = Some ''@Nullable y''
   \<and> fs (final_state (process_directory (Dir [] [''L.java'', ''notes.txt'']) ''src'' False
             (init_state (names_of [(''src/L.java'', 1), (''src/notes.txt'', 1)])
                [1 \<mapsto> plain_file ''@Nullable y''])))
        ''src/notes.txt'' = Some '' y''"
  by (simp add: run_defs text_defs)

text \<open>
  C7, as amended: a run of \<^verbatim>\<open>process_directory\<close>, failed or not, has opened for
  writing and reported, in order, an initial part of the selected paths and nothing else,
  all of them when it did not fail, and every file that none of these paths names is as
  it was. The selected paths of a directory are the joined paths of its file names that
  end with \<^verbatim>\<open>.java\<close>, followed by the selected paths of each subdirectory in turn; a
  joined path ends with \<^verbatim>\<open>.java\<close> exactly when the file name does. A path that does
  not end with \<^verbatim>\<open>.java\<close> is never opened for writing and has no progress line, and
  its content is what it was unless a selected path names the same file. No path changes
  the file it names and no counter changes.
\<close>

theorem only_java_files_are_processed:
  "(\<exists>k \<le> length (selected_paths tree dir).
      writes (final_state (process_directory tree dir flag s))
        = writes s @ take k (selected_paths tree dir)
    \<and> stdout (final_state (process_directory tree dir flag s))
        = stdout s @ map Processed (take k (selected_paths tree dir))
    \<and> (\<not> isl (process_directory tree dir flag s) \<longrightarrow> k = length (selected_paths tree dir))
    \<and> (\<forall>i. i \<notin> names s ` set (take k (selected_paths tree dir)) \<longrightarrow>
          disk (final_state (process_directory tree dir flag s)) i = disk s i))
   \<and> selected_paths (Dir subdirs fnames) d
        = selected_files d fnames
          @ concat (map (\<lambda>(name, t). selected_paths t (join_path d name)) subdirs)
   \<and> selected_files root files
        = map (join_path root) (filter (\<lambda>f. endswith f ''.java'') files)
   \<and> endswith (join_path root file) ''.java'' = endswith file ''.java''
   \<and> list_all (\<lambda>p. endswith p ''.java'') (selected_paths tree dir)
   \<and> (\<forall>q. \<not> endswith q ''.java'' \<longrightarrow>
          q \<notin> set (drop (length (writes s))
                     (writes (final_state (process_directory tree dir flag s))))
        \<and> Processed q \<notin> set (drop (length (stdout s))
                     (stdout (final_state (process_directory tree dir flag s))))
        \<and> ((\<forall>p \<in> set (selected_paths tree dir). names s p \<noteq> names s q) \<longrightarrow>
              fs (final_state (process_directory tree dir flag s)) q = fs s q))
   \<and> names (final_state (process_directory tree dir flag s)) = names s
   \<and> counters (final_state (process_directory tree dir flag s)) = counters s"
proof -
  let ?ps = "selected_paths tree dir"
  let ?f = "final_state (process_directory tree dir flag s)"
  from strip_and_report_frame [of ?ps flag s] obtain k where k: "k \<le> length ?ps"
    "writes ?f = writes s @ take k ?ps"
    "stdout ?f = stdout s @ map Processed (take k ?ps)"
    "counters ?f = counters s"
    "names ?f = names s"
    "\<forall>i. i \<notin> names s ` set (take k ?ps) \<longrightarrow> disk ?f i = disk s i"
    "\<not> isl (process_directory tree dir flag s) \<longrightarrow> k = length ?ps"
    unfolding process_directory_flat by blast
  have java: "list_all (\<lambda>p. endswith p ''.java'') ?ps" by (rule selected_paths_java)
  have frame: "q \<notin> set (drop (length (writes s)) (writes ?f))
        \<and> Processed q \<notin> set (drop (length (stdout s)) (stdout ?f))
        \<and> ((\<forall>p \<in> set ?ps. names s p \<noteq> names s q) \<longrightarrow> fs ?f q = fs s q)"
    if "\<not> endswith q ''.java''" for q
  proof -
    have "q \<notin> set ?ps" using java that by (auto simp: list_all_iff)
    then have n: "q \<notin> set (take k ?ps)" by (auto dest: in_set_takeD)
    have "q \<notin> set (drop (length (writes s)) (writes ?f))"
      unfolding k(2) using n by simp
    moreover have "Processed q \<notin> set (drop (length (stdout s)) (stdout ?f))"
      unfolding k(3) using n by auto
    moreover have "fs ?f q = fs s q" if "\<forall>p \<in> set ?ps. names s p \<noteq> names s q"
    proof -
      have "names s q \<notin> names s ` set (take k ?ps)"
        using that by (auto dest: in_set_takeD)
      then have "disk ?f (names s q) = disk s (names s q)" using k(6) by blast
      then show ?thesis by (simp add: fs_def k(5))
    qed
    ultimately show ?thesis by blast
  qed
  have ex: "\<exists>k \<le> length ?ps. writes ?f = writes s @ take k ?ps
      \<and> stdout ?f = stdout s @ map Processed (take k ?ps)
      \<and> (\<not> isl (process_directory tree dir flag s) \<longrightarrow> k = length ?ps)
      \<and> (\<forall>i. i \<notin> names s ` set (take k ?ps) \<longrightarrow> disk ?f i = disk s i)"
    using k(1,2,3,6,7) by blast
  have all: "\<forall>q. \<not> endswith q ''.java'' \<longrightarrow>
          q \<notin> set (drop (length (writes s)) (writes ?f))
        \<and> Processed q \<notin> set (drop (length (stdout s)) (stdout ?f))
        \<and> ((\<forall>p \<in> set ?ps. names s p \<noteq> names s q) \<longrightarrow> fs ?f q = fs s q)"
    using frame by blast
  show ?thesis
    by (intro conjI ex java selected_paths_Dir selected_files_map endswith_join all k(4,5))
qed

theorem only_java_files_are_processed_witness:
  "selected_paths (Dir [(''sub'', Dir [] [''B.java'', ''notes.txt''])] [''A.java'', ''readme.md''])
       ''src''
     = [''src/A.java'', ''src/sub/B.java'']
   \<and> writes (final_state (process_directory
          (Dir [(''sub'', Dir [] [''B.java'', ''notes.txt''])] [''A.java'', ''readme.md''])
          ''src'' False
          (init_state (names_of [(''src/A.java'', 1), (''src/readme.md'', 2),
                                 (''src/sub/B.java'', 3), (''src/sub/notes.txt'', 4)])
             [1 \<mapsto> plain_file ''@Nullable a'', 2 \<mapsto> plain_file ''@Nullable r'',
              3 \<mapsto> plain_file ''@NonNull b'', 4 \<mapsto> plain_file ''@Nullable n''])))
     = [''src/A.java'', ''src/sub/B.java'']
   \<and> \<not> endswith ''src/sub/notes.txt'' ''.java''
   \<and> fs (final_state (process_directory
          (Dir [(''sub'', Dir [] [''B.java'', ''notes.txt''])] [''A.java'', ''readme.md''])
          ''src'' False
          (init_state (names_of [(''src/A.java'', 1), (''src/readme.md'', 2),
                                 (''src/sub/B.java'', 3), (''src/sub/notes.txt'', 4)])
             [1 \<mapsto> plain_file ''@Nullable a'', 2 \<mapsto> plain_file ''@Nullable r'',
              3 \<mapsto> plain_file ''@NonNull b'', 4 \<mapsto> plain_file ''@Nullable n''])))
        ''src/sub/notes.txt''
     = Some ''@Nullable n''"
proof -
  let ?t = "Dir [(''sub'', Dir [] [''B.java'', ''notes.txt''])] [''A.java'', ''readme.md'']"
  let ?s = "init_state (names_of [(''src/A.java'', 1), (''src/readme.md'', 2),
                                 (''src/sub/B.java'', 3), (''src/sub/notes.txt'', 4)])
             [1 \<mapsto> plain_file ''@Nullable a'', 2 \<mapsto> plain_file ''@Nullable r'',
              3 \<mapsto> plain_file ''@NonNull b'', 4 \<mapsto> plain_file ''@Nullable n'']"
  let ?r = "process_directory ?t ''src'' False ?s"
  note inst = only_java_files_are_processed
    [of ?t "''src''" False ?s "[]" "[]" "[]" "[]" "[]" "[]"]
  have sel: "selected_paths ?t ''src'' = [''src/A.java'', ''src/sub/B.java'']"
    by (simp add: selected_paths_def endswith_def join_path_def)
  have ok: "\<not> isl ?r"
    by (simp add: run_defs text_defs)
  have w0: "writes ?s = []" by (simp add: init_state_def)
  from inst obtain k where k: "writes (final_state ?r) = writes ?s @ take k (selected_paths ?t ''src'')"
    "\<not> isl ?r \<longrightarrow> k = length (selected_paths ?t ''src'')"
    by blast
  have w: "writes (final_state ?r) = [''src/A.java'', ''src/sub/B.java'']"
    using k ok unfolding sel w0 by simp
  have h: "\<not> endswith ''src/sub/notes.txt'' ''.java''" by (simp add: endswith_def)
  have d: "\<forall>p \<in> set (selected_paths ?t ''src''). names ?s p \<noteq> names ?s ''src/sub/notes.txt''"
    unfolding sel by (simp add: init_state_def names_of_def)
  have "fs (final_state ?r) ''src/sub/notes.txt'' = fs ?s ''src/sub/notes.txt''"
    using inst h d by blast
  also have "fs ?s ''src/sub/notes.txt'' = Some ''@Nullable n''"
    by (simp add: init_state_def names_of_def fs_def plain_file_def)
  finally show ?thesis using sel w h by simp
qed

subsection \<open>C2: a byte outside ASCII\<close>

text \<open>
  C2: when a selected path names a readable file that holds a byte above 127,
  \<^verbatim>\<open>remove_annotations\<close> on it fails with \<^verbatim>\<open>UnicodeDecodeError\<close> in an unchanged
  state, and the whole run fails: the file is as it was, the path is not among the paths
  opened for writing during the run, and the output of the run holds the progress lines
  of the files processed before and no summary. The error of the run is that
  \<^verbatim>\<open>UnicodeDecodeError\<close> when every selected path names a file that can be read and
  written, so that no other exception comes first.
\<close>

theorem decoding_error_halts_run:
  "p \<in> set (selected_paths tree dir) \<and> disk s (names s p) = Some f \<and> readable f
     \<and> \<not> list_all (\<lambda>b. (of_char b :: nat) < 128) (contents f)
   \<longrightarrow> remove_annotations p flag s = Inl (UnicodeDecodeError, s)
     \<and> (\<exists>e s' qs. main tree dir flag s = Inl (e, s')
           \<and> disk s' (names s' p) = Some f \<and> p \<notin> set qs
           \<and> writes s' = writes s @ qs \<and> stdout s' = stdout s @ map Processed qs
           \<and> ((\<forall>q \<in> set (selected_paths tree dir). accessible s q)
                \<longrightarrow> e = UnicodeDecodeError))"
proof (intro impI conjI)
  assume h: "p \<in> set (selected_paths tree dir) \<and> disk s (names s p) = Some f \<and> readable f
     \<and> \<not> list_all (\<lambda>b. (of_char b :: nat) < 128) (contents f)"
  then show "remove_annotations p flag s = Inl (UnicodeDecodeError, s)"
    using remove_annotations_decode_fail by blast
  from h strip_and_report_decode_fail [of p "selected_paths tree dir" s f flag]
  obtain e s' qs where q: "strip_and_report (selected_paths tree dir) flag s = Inl (e, s')"
    "disk s' (names s' p) = Some f" "p \<notin> set qs"
    "writes s' = writes s @ qs" "stdout s' = stdout s @ map Processed qs"
    by blast
  have m: "main tree dir flag s = Inl (e, s')"
    using q(1) by (simp add: main_def process_directory_flat)
  have "e = UnicodeDecodeError" if "\<forall>q \<in> set (selected_paths tree dir). accessible s q"
    using strip_and_report_error [OF that q(1)] .
  then show "\<exists>e s' qs. main tree dir flag s = Inl (e, s')
           \<and> disk s' (names s' p) = Some f \<and> p \<notin> set qs
           \<and> writes s' = writes s @ qs \<and> stdout s' = stdout s @ map Processed qs
           \<and> ((\<forall>q \<in> set (selected_paths tree dir). accessible s q)
                \<longrightarrow> e = UnicodeDecodeError)"
    using m q(2-5) by blast
qed

theorem decoding_error_halts_run_witness:
  "''src/B.java'' \<in> set (selected_paths (Dir [] [''A.java'', ''B.java'']) ''src'')
   \<and> disk (init_state (names_of [(''src/A.java'', 1), (''src/B.java'', 2)])
             [1 \<mapsto> plain_file ''@Nullable x'', 2 \<mapsto> plain_file [CHR 0xE9]]) 2
       = Some (plain_file [CHR 0xE9])
   \<and> \<not> list_all (\<lambda>b. (of_char b :: nat) < 128) (contents (plain_file [CHR 0xE9]))
   \<and> remove_annotations ''src/B.java'' False
        (init_state (names_of [(''src/A.java'', 1), (''src/B.java'', 2)])
             [1 \<mapsto> plain_file ''@Nullable x'', 2 \<mapsto> plain_file [CHR 0xE9]])
       = Inl (UnicodeDecodeError,
              init_state (names_of [(''src/A.java'', 1), (''src/B.java'', 2)])
                [1 \<mapsto> plain_file ''@Nullable x'', 2 \<mapsto> plain_file [CHR 0xE9]])
   \<and> (\<exists>s' qs. main (Dir [] [''A.java'', ''B.java'']) ''src'' False
                 (init_state (names_of [(''src/A.java'', 1), (''src/B.java'', 2)])
                    [1 \<mapsto> plain_file ''@Nullable x'', 2 \<mapsto> plain_file [CHR 0xE9]])
               = Inl (UnicodeDecodeError, s')
           \<and> disk s' 2 = Some (plain_file [CHR 0xE9]) \<and> ''src/B.java'' \<notin> set qs
           \<and> writes s' = qs \<and> stdout s' = map Processed qs)"
proof -
  let ?t = "Dir [] [''A.java'', ''B.java'']"
  let ?s = "init_state (names_of [(''src/A.java'', 1), (''src/B.java'', 2)])
             [1 \<mapsto> plain_file ''@Nullable x'', 2 \<mapsto> plain_file [CHR 0xE9]]"
  note inst = decoding_error_halts_run
    [of "''src/B.java''" ?t "''src''" ?s "plain_file [CHR 0xE9]" False]
  have sel: "selected_paths ?t ''src'' = [''src/A.java'', ''src/B.java'']"
    by (simp add: selected_paths_def endswith_def join_path_def)
  have n: "names ?s ''src/B.java'' = 2" by (simp add: init_state_def names_of_def)
  have h1: "''src/B.java'' \<in> set (selected_paths ?t ''src'')" unfolding sel by simp
  have h2: "disk ?s (names ?s ''src/B.java'') = Some (plain_file [CHR 0xE9])"
    by (simp add: init_state_def names_of_def)
  have h3: "readable (plain_file [CHR 0xE9])" by (simp add: plain_file_def)
  have h4: "\<not> list_all (\<lambda>b. (of_char b :: nat) < 128) (contents (plain_file [CHR 0xE9]))"
    by (simp add: plain_file_def)
  have h5: "\<forall>q \<in> set (selected_paths ?t ''src''). accessible ?s q"
    unfolding sel by (simp add: accessible_def init_state_def names_of_def plain_file_def)
  have c: "remove_annotations ''src/B.java'' False ?s = Inl (UnicodeDecodeError, ?s)
     \<and> (\<exists>e s' qs. main ?t ''src'' False ?s = Inl (e, s')
           \<and> disk s' (names s' ''src/B.java'') = Some (plain_file [CHR 0xE9])
           \<and> ''src/B.java'' \<notin> set qs
           \<and> writes s' = writes ?s @ qs \<and> stdout s' = stdout ?s @ map Processed qs
           \<and> ((\<forall>q \<in> set (selected_paths ?t ''src''). accessible ?s q)
                \<longrightarrow> e = UnicodeDecodeError))"
    using inst h1 h2 h3 h4 by blast
  then obtain e s' qs where r: "main ?t ''src'' False ?s = Inl (e, s')"
    "disk s' (names s' ''src/B.java'') = Some (plain_file [CHR 0xE9])"
    "''src/B.java'' \<notin> set qs"
    "writes s' = writes ?s @ qs" "stdout s' = stdout ?s @ map Processed qs"
    "e = UnicodeDecodeError"
    using h5 by blast
  from only_names [of ?t "''src''" False ?s] r(1)
  have "names s' = names ?s" by simp
  then have d: "disk s' 2 = Some (plain_file [CHR 0xE9])" using r(2) n by simp
  have e: "writes ?s = []" "stdout ?s = []" by (simp_all add: init_state_def)
  have "\<exists>s' qs. main ?t ''src'' False ?s = Inl (UnicodeDecodeError, s')
           \<and> disk s' 2 = Some (plain_file [CHR 0xE9]) \<and> ''src/B.java'' \<notin> set qs
           \<and> writes s' = qs \<and> stdout s' = map Processed qs"
    using r d unfolding e by auto
  then show ?thesis using h1 h2 h4 c unfolding n by blast
qed

subsection \<open>C8: who writes the file\<close>

text \<open>
  \<^verbatim>\<open>remove_annotations\<close>, called on its own, has overwritten the file when it returns.
\<close>

theorem stripper_writes_file_counterexample:
  "remove_annotations ''A.java'' False
     (init_state (names_of [(''A.java'', 1)]) [1 \<mapsto> plain_file ''@Nullable x''])
     = Inr ((init_state (names_of [(''A.java'', 1)]) [1 \<mapsto> plain_file ''@Nullable x''])
              \<lparr>disk := [1 \<mapsto> plain_file '' x''], writes := [''A.java'']\<rparr>)"
  by (simp add: run_defs text_defs)

text \<open>
  C8, as amended: \<^verbatim>\<open>remove_annotations\<close> itself overwrites the file the path names
  with the transformed text, and that write and its entry in the write log are its only
  effects; \<^verbatim>\<open>process_directory\<close> does no more than call it on each selected path, in
  order, and print the progress line after each call.
\<close>

theorem stripper_overwrites_walker_reports:
  "(remove_annotations p flag s = Inr s' \<longrightarrow>
      (\<exists>f. disk s (names s p) = Some f
         \<and> s' = s\<lparr>disk := (disk s)(names s p \<mapsto> rewritten flag f),
                 writes := writes s @ [p]\<rparr>))
   \<and> contents (rewritten flag g)
        = write_newlines (new_content flag (universal_newlines (contents g)))
   \<and> process_directory tree dir flag s = strip_and_report (selected_paths tree dir) flag s"
proof (intro conjI impI)
  assume "remove_annotations p flag s = Inr s'"
  from remove_annotations_Inr [OF this]
  show "\<exists>f. disk s (names s p) = Some f
         \<and> s' = s\<lparr>disk := (disk s)(names s p \<mapsto> rewritten flag f),
                 writes := writes s @ [p]\<rparr>"
    by blast
next
  show "contents (rewritten flag g)
        = write_newlines (new_content flag (universal_newlines (contents g)))"
    by (simp add: rewritten_def)
next
  show "process_directory tree dir flag s = strip_and_report (selected_paths tree dir) flag s"
    by (rule process_directory_flat)
qed

theorem stripper_overwrites_walker_reports_witness:
  "remove_annotations ''src/A.java'' True
     (init_state (names_of [(''src/A.java'', 1)]) [1 \<mapsto> plain_file ''@Nullable x''])
      = Inr ((init_state (names_of [(''src/A.java'', 1)]) [1 \<mapsto> plain_file ''@Nullable x''])
              \<lparr>disk := [1 \<mapsto> plain_file '' x''], writes := [''src/A.java'']\<rparr>)
   \<and> (\<exists>f. disk (init_state (names_of [(''src/A.java'', 1)]) [1 \<mapsto> plain_file ''@Nullable x'']) 1
              = Some f
         \<and> (init_state (names_of [(''src/A.java'', 1)]) [1 \<mapsto> plain_file ''@Nullable x''])
              \<lparr>disk := [1 \<mapsto> plain_file '' x''], writes := [''src/A.java'']\<rparr>
           = (init_state (names_of [(''src/A.java'', 1)]) [1 \<mapsto> plain_file ''@Nullable x''])
               \<lparr>disk := [1 \<mapsto> rewritten True f], writes := [''src/A.java'']\<rparr>)"
proof -
  let ?s = "init_state (names_of [(''src/A.java'', 1)]) [1 \<mapsto> plain_file ''@Nullable x'']"
  let ?s' = "?s\<lparr>disk := [1 \<mapsto> plain_file '' x''], writes := [''src/A.java'']\<rparr>"
  note inst = stripper_overwrites_walker_reports
    [of "''src/A.java''" True ?s ?s' "plain_file []" "Dir [] []" "[]"]
  have r: "remove_annotations ''src/A.java'' True ?s = Inr ?s'"
    by (simp add: run_defs text_defs)
  have n: "names ?s ''src/A.java'' = 1" "writes ?s = []"
    "disk ?s = [1 \<mapsto> plain_file ''@Nullable x'']"
    by (simp_all add: init_state_def names_of_def)
  have "\<exists>f. disk ?s (names ?s ''src/A.java'') = Some f
         \<and> ?s' = ?s\<lparr>disk := (disk ?s)(names ?s ''src/A.java'' \<mapsto> rewritten True f),
                 writes := writes ?s @ [''src/A.java'']\<rparr>"
    using inst r by blast
  then have "\<exists>f. disk ?s 1 = Some f
         \<and> ?s' = ?s\<lparr>disk := [1 \<mapsto> rewritten True f], writes := [''src/A.java'']\<rparr>"
    unfolding n by simp
  then show ?thesis using r by blast
qed

subsection \<open>C9: every selected file is rewritten\<close>




subsection \<open>C3: the flag gates the SuppressWarnings pass, the count\<close>

text \<open>
  C3, at the example of the claim: without the flag the text is unchanged, with the flag
  the annotation is removed, and a nullability annotation is removed without the flag; the
  run with the flag rewrites the file and then reports a SuppressWarnings total of 0.
\<close>

theorem suppress_warnings_count_stays_zero:
  \<open>new_content False ''@SuppressWarnings("unchecked") void f() {}''
      = ''@SuppressWarnings("unchecked") void f() {}''
   \<and> new_content True ''@SuppressWarnings("unchecked") void f() {}'' = '' void f() {}''
   \<and> new_content False ''@Nullable @SuppressWarnings("unchecked") void f() {}''
      = '' @SuppressWarnings("unchecked") void f() {}''
   \<and> main (Dir [] [''A.java'']) ''src'' True
        (init_state (names_of [(''src/A.java'', 1)])
           [1 \<mapsto> plain_file ''@SuppressWarnings("unchecked") void f() {}''])
      = Inr \<lparr>names = names_of [(''src/A.java'', 1)],
             disk = [1 \<mapsto> plain_file '' void f() {}''],
             writes = [''src/A.java''],
             stdout = [Processed ''src/A.java'', TotalHeader,
                       TotalCount ''@Nullable'' 0, TotalCount ''@NonNull'' 0,
                       TotalCount ''@Nonnull'' 0, TotalCount ''@Notnull'' 0,
                       TotalCount ''@NotNull'' 0, TotalCount ''@MonotonicNonNull'' 0,
                       TotalCount ''@SuppressWarnings'' 0],
             total_nullable_count = 0, total_nonnull_count = 0,
             total_nonnull_strict_count = 0, total_notnull_count = 0,
             total_not_null_strict_count = 0, total_monotonic_nonnull_count = 0,
             total_suppress_warnings_count = 0\<rparr>\<close>
  by (simp add: run_defs text_defs)

subsection \<open>C5: case-exact, word-bounded kinds, the counters\<close>

text \<open>
  C5, at the example of the claim: each of the four patterns occurs once in the text and
  all four occurrences are removed, \<^verbatim>\<open>@NonNullable\<close> is no occurrence of the NonNull
  pattern and is left alone; the run reports a total of 0 for every kind.
\<close>

theorem four_kinds_removed_counters_stay_zero:
  "new_content False ''@NonNull @Nonnull @NotNull @Notnull'' = ''   ''
   \<and> occurrences nonnull_pattern ''@NonNull @Nonnull @NotNull @Notnull'' = 1
   \<and> occurrences nonnull_strict_pattern ''@NonNull @Nonnull @NotNull @Notnull'' = 1
   \<and> occurrences not_null_strict_pattern ''@NonNull @Nonnull @NotNull @Notnull'' = 1
   \<and> occurrences notnull_pattern ''@NonNull @Nonnull @NotNull @Notnull'' = 1
   \<and> occurrences nonnull_pattern ''@NonNullable x'' = 0
   \<and> new_content False ''@NonNullable x'' = ''@NonNullable x''
   \<and> main (Dir [] [''A.java'']) ''src'' False
        (init_state (names_of [(''src/A.java'', 1)])
           [1 \<mapsto> plain_file ''@NonNull @Nonnull @NotNull @Notnull''])
      = Inr \<lparr>names = names_of [(''src/A.java'', 1)],
             disk = [1 \<mapsto> plain_file ''   ''],
             writes = [''src/A.java''],
             stdout = [Processed ''src/A.java'', TotalHeader,
                       TotalCount ''@Nullable'' 0, TotalCount ''@NonNull'' 0,
                       TotalCount ''@Nonnull'' 0, TotalCount ''@Notnull'' 0,
                       TotalCount ''@NotNull'' 0, TotalCount ''@MonotonicNonNull'' 0],
             total_nullable_count = 0, total_nonnull_count = 0,
             total_nonnull_strict_count = 0, total_notnull_count = 0,
             total_not_null_strict_count = 0, total_monotonic_nonnull_count = 0,
             total_suppress_warnings_count = 0\<rparr>"
  by (simp add: run_defs text_defs occurrences_def)


end
